theory Spec2Isabelle
  imports Main "HOL-Library.Word"
begin

section \<open>Data model\<close>

text \<open>
  The coordinates of a \<open>Pixel\<close> are C++ \<open>int\<close>s. Signed overflow is undefined in C++,
  so arithmetic on them is modelled on \<open>int\<close>, which is exact wherever the program is
  defined; the limits of the 32-bit type enter only through \<open>INT_MIN\<close> and \<open>INT_MAX\<close>.
  Field \<open>x\<close> is the row index and field \<open>y\<close> the column index (see \<open>Image::IsWhite\<close>).
\<close>

record Pixel =
  x :: int
  y :: int

definition INT_MAX :: int where
  "INT_MAX = 2147483647"

definition INT_MIN :: int where
  "INT_MIN = - 2147483648"

text \<open>The default-constructed pixel: both members are initialised to 0.\<close>

definition Pixel_default :: Pixel where
  "Pixel_default = \<lparr>x = 0, y = 0\<rparr>"

text \<open>
  Undefined behaviour of the source is a value: an index outside a vector
  (\<open>OutOfBounds row col\<close>), \<open>is_white_[0]\<close> on a grid without rows, and \<open>front()\<close> of an
  empty queue.
\<close>

datatype error = OutOfBounds int int | NoFirstRow | EmptyQueue

type_synonym uchar = "8 word"

text \<open>
  The decoded image: a single-channel 8-bit \<open>cv::Mat\<close> with its extents and its
  accessor \<open>at<uchar>(i, j)\<close>.
\<close>

record Mat =
  mat_rows :: nat
  mat_cols :: nat
  mat_at :: "nat \<Rightarrow> nat \<Rightarrow> uchar"

text \<open>
  Class \<open>Image\<close> has the single member \<open>is_white_\<close>, the field \<open>is_white\<close> here; each
  cell holds the truth value that the constructor stored there.
\<close>

record Image =
  is_white :: "bool list list"

definition IsWhite_color :: "uchar \<Rightarrow> bool" where
  "IsWhite_color color = (color = 0)"

definition Image_ctor :: "Mat \<Rightarrow> Image" where
  "Image_ctor mat =
     \<lparr>is_white = map (\<lambda>i. map (\<lambda>j. IsWhite_color (mat_at mat i j)) [0..<mat_cols mat])
                     [0..<mat_rows mat]\<rparr>"

definition GetRows :: "Image \<Rightarrow> nat" where
  "GetRows img = length (is_white img)"

definition GetColumns :: "Image \<Rightarrow> error + nat" where
  "GetColumns img =
     (if is_white img = [] then Inl NoFirstRow else Inr (length (is_white img ! 0)))"

text \<open>
  \<open>v[r][c]\<close> on a vector of vectors with \<open>int\<close> indices. A negative \<open>int\<close> converts to a
  \<open>size_t\<close> beyond the size of any vector, so it is out of range like a too large one.
\<close>

definition cell_ok :: "'a list list \<Rightarrow> int \<Rightarrow> int \<Rightarrow> bool" where
  "cell_ok g r c = (0 \<le> r \<and> nat r < length g \<and> 0 \<le> c \<and> nat c < length (g ! nat r))"

definition cell_get :: "'a list list \<Rightarrow> int \<Rightarrow> int \<Rightarrow> error + 'a" where
  "cell_get g r c = (if cell_ok g r c then Inr (g ! nat r ! nat c) else Inl (OutOfBounds r c))"

definition cell_set :: "'a list list \<Rightarrow> int \<Rightarrow> int \<Rightarrow> 'a \<Rightarrow> 'a list list" where
  "cell_set g r c v = g[nat r := (g ! nat r)[nat c := v]]"

definition IsWhite :: "Image \<Rightarrow> int \<Rightarrow> int \<Rightarrow> error + bool" where
  "IsWhite img r c = cell_get (is_white img) r c"

text \<open>
  \<open>IsCorrect\<close> evaluates \<open>is_white_[0]\<close> only after \<open>x < is_white_.size()\<close> has held, that
  is on a grid with a first row.
\<close>

definition IsCorrect :: "Image \<Rightarrow> int \<Rightarrow> int \<Rightarrow> bool" where
  "IsCorrect img r c =
     (r \<ge> 0 \<and> nat r < length (is_white img) \<and> c \<ge> 0 \<and> nat c < length (is_white img ! 0))"

definition GetNeighbours :: "Image \<Rightarrow> int \<Rightarrow> int \<Rightarrow> Pixel list" where
  "GetNeighbours img r c =
     (if IsCorrect img (r + 1) c then [\<lparr>x = r + 1, y = c\<rparr>] else []) @
     (if IsCorrect img r (c + 1) then [\<lparr>x = r, y = c + 1\<rparr>] else []) @
     (if IsCorrect img (r - 1) c then [\<lparr>x = r - 1, y = c\<rparr>] else []) @
     (if IsCorrect img r (c - 1) then [\<lparr>x = r, y = c - 1\<rparr>] else [])"

section \<open>The flood fill\<close>

text \<open>
  The variables of \<open>BFS\<close>. The fields \<open>pushed\<close> and \<open>popped\<close> are history variables: they
  record every \<open>queue.push\<close> and every \<open>queue.pop\<close> in order, and nothing reads them.
\<close>

record bfs_state =
  queue :: "Pixel list"
  used :: "bool list list"
  black_pixels :: "Pixel list"
  white :: nat
  black :: nat
  pushed :: "Pixel list"
  popped :: "Pixel list"

definition MIN_ITERATION_COUNT :: nat where
  "MIN_ITERATION_COUNT = 200"

definition MAX_ITERATION_COUNT :: nat where
  "MAX_ITERATION_COUNT = 400"

text \<open>The statements before the loop.\<close>

definition BFS_init :: "Pixel \<Rightarrow> Image \<Rightarrow> Pixel list \<Rightarrow> error + bfs_state" where
  "BFS_init start img out =
     (case GetColumns img of
        Inl e \<Rightarrow> Inl e
      | Inr n \<Rightarrow>
          (let used0 = replicate (GetRows img) (replicate n False) in
           if cell_ok used0 (x start) (y start)
           then Inr \<lparr>queue = [start], used = cell_set used0 (x start) (y start) True,
                     black_pixels = out, white = 0, black = 1,
                     pushed = [start], popped = []\<rparr>
           else Inl (OutOfBounds (x start) (y start))))"

definition BFS_cond :: "bfs_state \<Rightarrow> bool" where
  "BFS_cond s =
     (queue s \<noteq> [] \<and>
      (white s div black s = 0 \<or> white s + black s < MIN_ITERATION_COUNT) \<and>
      black s + white s < MAX_ITERATION_COUNT)"

text \<open>The \<open>for\<close> loop over the neighbours of the pixel taken from the queue.\<close>

fun BFS_visit :: "Pixel list \<Rightarrow> bfs_state \<Rightarrow> error + bfs_state" where
  "BFS_visit [] s = Inr s"
| "BFS_visit (p # ps) s =
     (case cell_get (used s) (x p) (y p) of
        Inl e \<Rightarrow> Inl e
      | Inr u \<Rightarrow>
          if \<not> u
          then BFS_visit ps
                 (s\<lparr>queue := queue s @ [p], pushed := pushed s @ [p],
                    used := cell_set (used s) (x p) (y p) True\<rparr>)
          else BFS_visit ps s)"

text \<open>One iteration of the \<open>while\<close> loop.\<close>

definition BFS_body :: "Image \<Rightarrow> bfs_state \<Rightarrow> error + bfs_state" where
  "BFS_body img s =
     (case queue s of
        [] \<Rightarrow> Inl EmptyQueue
      | next # rest \<Rightarrow>
          (case IsWhite img (x next) (y next) of
             Inl e \<Rightarrow> Inl e
           | Inr w \<Rightarrow>
               BFS_visit (GetNeighbours img (x next) (y next))
                 (s\<lparr>queue := rest, popped := popped s @ [next],
                    black_pixels := (if \<not> w then black_pixels s @ [next]
                                     else black_pixels s)\<rparr>)))"

text \<open>
  The \<open>while\<close> loop. \<open>None\<close> is a run that never leaves the loop; \<open>Some (Inl e)\<close> is a
  run that reaches undefined behaviour.
\<close>

partial_function (option) BFS_loop :: "Image \<Rightarrow> bfs_state \<Rightarrow> (error + bfs_state) option" where
  "BFS_loop img s =
     (if BFS_cond s
      then (case BFS_body img s of Inl e \<Rightarrow> Some (Inl e) | Inr s' \<Rightarrow> BFS_loop img s')
      else Some (Inr s))"

declare BFS_loop.simps [code]

definition BFS :: "Pixel \<Rightarrow> Image \<Rightarrow> Pixel list \<Rightarrow> (error + bfs_state) option" where
  "BFS start img out =
     (case BFS_init start img out of
        Inl e \<Rightarrow> Some (Inl e)
      | Inr s \<Rightarrow> BFS_loop img s)"

section \<open>The junction classifier\<close>

text \<open>
  The four extremal searches. Each loop carries \<open>best_pixel\<close> and the bound it compares
  with, and replaces both only on a strict improvement.
\<close>

fun GetLeftest_loop :: "Pixel list \<Rightarrow> Pixel \<Rightarrow> int \<Rightarrow> Pixel" where
  "GetLeftest_loop [] best_pixel min_x = best_pixel"
| "GetLeftest_loop (p # ps) best_pixel min_x =
     (if x p < min_x then GetLeftest_loop ps p (x p) else GetLeftest_loop ps best_pixel min_x)"

definition GetLeftest :: "Pixel list \<Rightarrow> Pixel" where
  "GetLeftest pixels = GetLeftest_loop pixels Pixel_default INT_MAX"

fun GetRightest_loop :: "Pixel list \<Rightarrow> Pixel \<Rightarrow> int \<Rightarrow> Pixel" where
  "GetRightest_loop [] best_pixel max_x = best_pixel"
| "GetRightest_loop (p # ps) best_pixel max_x =
     (if max_x < x p then GetRightest_loop ps p (x p) else GetRightest_loop ps best_pixel max_x)"

definition GetRightest :: "Pixel list \<Rightarrow> Pixel" where
  "GetRightest pixels = GetRightest_loop pixels Pixel_default INT_MIN"

fun GetLowest_loop :: "Pixel list \<Rightarrow> Pixel \<Rightarrow> int \<Rightarrow> Pixel" where
  "GetLowest_loop [] best_pixel min_y = best_pixel"
| "GetLowest_loop (p # ps) best_pixel min_y =
     (if y p < min_y then GetLowest_loop ps p (y p) else GetLowest_loop ps best_pixel min_y)"

definition GetLowest :: "Pixel list \<Rightarrow> Pixel" where
  "GetLowest pixels = GetLowest_loop pixels Pixel_default INT_MIN"

fun GetHighest_loop :: "Pixel list \<Rightarrow> Pixel \<Rightarrow> int \<Rightarrow> Pixel" where
  "GetHighest_loop [] best_pixel max_y = best_pixel"
| "GetHighest_loop (p # ps) best_pixel max_y =
     (if max_y < y p then GetHighest_loop ps p (y p) else GetHighest_loop ps best_pixel max_y)"

definition GetHighest :: "Pixel list \<Rightarrow> Pixel" where
  "GetHighest pixels = GetHighest_loop pixels Pixel_default INT_MIN"

text \<open>The two overloads of \<open>AreSimilar\<close>.\<close>

definition AreSimilar_int :: "int \<Rightarrow> int \<Rightarrow> bool" where
  "AreSimilar_int a b = (\<bar>a - b\<bar> < 5)"

definition AreSimilar :: "Pixel \<Rightarrow> Pixel \<Rightarrow> bool" where
  "AreSimilar a b = (AreSimilar_int (x a) (x b) \<and> AreSimilar_int (y a) (y b))"

text \<open>
  The nested loops of \<open>IsIntersection\<close> over \<open>external_pixels\<close>. \<open>pairs_inner\<close> is the loop
  over \<open>j\<close> and \<open>pairs_outer\<close> the loop over \<open>i\<close>; the value \<open>False\<close> is the
  \<open>return false\<close> inside, \<open>True\<close> is a loop that ran to its end.
\<close>

function pairs_inner :: "Pixel list \<Rightarrow> nat \<Rightarrow> nat \<Rightarrow> bool" where
  "pairs_inner ext i j =
     (if j < 4
      then (if AreSimilar (ext ! i) (ext ! j) then False else pairs_inner ext i (j + 1))
      else True)"
  by pat_completeness auto
termination
  by (relation "measure (\<lambda>(ext, i, j). 4 - j)") auto

function pairs_outer :: "Pixel list \<Rightarrow> nat \<Rightarrow> bool" where
  "pairs_outer ext i =
     (if i < 4
      then (if pairs_inner ext i (i + 1) then pairs_outer ext (i + 1) else False)
      else True)"
  by pat_completeness auto
termination
  by (relation "measure (\<lambda>(ext, i). 4 - i)") auto

text \<open>The part of \<open>IsIntersection\<close> after the call of \<open>BFS\<close>.\<close>

definition classify :: "Pixel list \<Rightarrow> bool" where
  "classify pixels =
     (let leftest = GetLeftest pixels;
          rightest = GetRightest pixels;
          lowest = GetLowest pixels;
          highest = GetHighest pixels;
          external_pixels = [leftest, rightest, lowest, highest]
      in pairs_outer external_pixels 0)"

definition IsIntersection :: "Pixel \<Rightarrow> Image \<Rightarrow> (error + bool) option" where
  "IsIntersection start img =
     (case BFS start img [] of
        None \<Rightarrow> None
      | Some (Inl e) \<Rightarrow> Some (Inl e)
      | Some (Inr s) \<Rightarrow> Some (Inr (classify (black_pixels s))))"

section \<open>The candidate scanner\<close>

text \<open>
  A comparison \<open>i < v.size()\<close> of an \<open>int\<close> with a \<open>size_t\<close> converts the \<open>int\<close>: a
  negative one becomes larger than every size.
\<close>

definition int_less_size :: "int \<Rightarrow> nat \<Rightarrow> bool" where
  "int_less_size i n = (0 \<le> i \<and> i < int n)"

definition STEP :: int where
  "STEP = 5"

text \<open>The width that \<open>GetColumns\<close> reads when there is a first row.\<close>

definition first_row_size :: "Image \<Rightarrow> nat" where
  "first_row_size img = length (is_white img ! 0)"

text \<open>
  The loop over \<open>j\<close> in \<open>main\<close>, from the given \<open>j\<close> on. Its body changes the row cursor
  \<open>i\<close> of the enclosing loop, so the loop returns it with the candidates.
\<close>

function scan_row :: "Image \<Rightarrow> int \<Rightarrow> int \<Rightarrow> Pixel list \<Rightarrow> (error + int \<times> Pixel list) option" where
  "scan_row img i j cands =
     (case GetColumns img of
        Inl e \<Rightarrow> Some (Inl e)
      | Inr n \<Rightarrow>
          if int_less_size j n
          then (case IsWhite img i j of
                  Inl e \<Rightarrow> Some (Inl e)
                | Inr w \<Rightarrow>
                    if w
                    then (case IsIntersection \<lparr>x = i, y = j\<rparr> img of
                            None \<Rightarrow> None
                          | Some (Inl e) \<Rightarrow> Some (Inl e)
                          | Some (Inr b) \<Rightarrow>
                              if b
                              then scan_row img (i + 20) (j + STEP) (cands @ [\<lparr>x = i, y = j\<rparr>])
                              else scan_row img i (j + STEP) cands)
                    else scan_row img i (j + STEP) cands)
          else Some (Inr (i, cands)))"
  by pat_completeness auto
termination
  by (relation "measure (\<lambda>(img, i, j, cands). nat (int (first_row_size img) - j))")
     (auto simp: GetColumns_def int_less_size_def STEP_def first_row_size_def split: if_splits)

text \<open>
  The loop over \<open>i\<close> in \<open>main\<close>, from the given \<open>i\<close> on: one pass of the loop over \<open>j\<close>,
  then \<open>i += STEP\<close> on the row cursor that this pass left.
\<close>

partial_function (option) scan :: "Image \<Rightarrow> int \<Rightarrow> Pixel list \<Rightarrow> (error + Pixel list) option" where
  "scan img i cands =
     (if int_less_size i (GetRows img)
      then (case scan_row img i 0 cands of
              None \<Rightarrow> None
            | Some (Inl e) \<Rightarrow> Some (Inl e)
            | Some (Inr (i', cands')) \<Rightarrow> scan img (i' + STEP) cands')
      else Some (Inr cands))"

declare scan.simps [code]

section \<open>Deduplication and the count\<close>

text \<open>
  The nested loops over \<open>potential_intersections\<close> that fill \<open>is_bad_pixel\<close>. Both indices
  start at 0 or above and stay below the size, so they are naturals here.
\<close>

function dedup_inner :: "Pixel list \<Rightarrow> nat \<Rightarrow> nat \<Rightarrow> bool list \<Rightarrow> bool list" where
  "dedup_inner cs i j bad =
     (if j < length cs
      then dedup_inner cs i (j + 1) (if AreSimilar (cs ! i) (cs ! j) then bad[j := True] else bad)
      else bad)"
  by pat_completeness auto
termination
  by (relation "measure (\<lambda>(cs, i, j, bad). length cs - j)") auto

function dedup_outer :: "Pixel list \<Rightarrow> nat \<Rightarrow> bool list \<Rightarrow> bool list" where
  "dedup_outer cs i bad =
     (if i < length cs
      then dedup_outer cs (i + 1) (dedup_inner cs i (i + 1) bad)
      else bad)"
  by pat_completeness auto
termination
  by (relation "measure (\<lambda>(cs, i, bad). length cs - i)") auto

definition dedup :: "Pixel list \<Rightarrow> bool list" where
  "dedup potential_intersections =
     dedup_outer potential_intersections 0 (replicate (length potential_intersections) False)"

text \<open>The loop that counts the entries of \<open>is_bad_pixel\<close> that are not set.\<close>

fun count_loop :: "bool list \<Rightarrow> int \<Rightarrow> int" where
  "count_loop [] intersections_count = intersections_count"
| "count_loop (is_bad # rest) intersections_count =
     count_loop rest (if \<not> is_bad then intersections_count + 1 else intersections_count)"

section \<open>The program\<close>

text \<open>What \<open>operator<<\<close> writes for an \<open>int\<close>: its decimal digits, after a minus sign if negative.\<close>

definition digit_char :: "nat \<Rightarrow> char" where
  "digit_char d = ''0123456789'' ! d"

function show_nat :: "nat \<Rightarrow> string" where
  "show_nat n = (if n < 10 then [digit_char n] else show_nat (n div 10) @ [digit_char (n mod 10)])"
  by pat_completeness auto
termination
  by (relation "measure (\<lambda>n. n)") auto

definition show_int :: "int \<Rightarrow> string" where
  "show_int v = (if v < 0 then CHR ''-'' # show_nat (nat (- v)) else show_nat (nat v))"

definition newline :: string where
  "newline = [CHR 0x0A]"

text \<open>
  \<open>main\<close> as a function of \<open>argc\<close> and of the matrix that \<open>cv::imread\<close> returns for
  \<open>argv[1]\<close>; the result is the text written to standard output and the exit code.
\<close>

definition main :: "int \<Rightarrow> Mat \<Rightarrow> (error + string \<times> int) option" where
  "main argc decoded =
     (if argc < 2 then Some (Inr (''You need to give name of png file'' @ newline, 1))
      else
        (let img = Image_ctor decoded in
         case scan img 0 [] of
           None \<Rightarrow> None
         | Some (Inl e) \<Rightarrow> Some (Inl e)
         | Some (Inr potential_intersections) \<Rightarrow>
             (let is_bad_pixel = dedup potential_intersections;
                  intersections_count = count_loop is_bad_pixel 0
              in Some (Inr (show_int intersections_count @ newline, 0)))))"

section \<open>Notions used to state the properties\<close>

text \<open>
  Two pixels are near when the absolute difference of their rows and the absolute
  difference of their columns are both below 5: a test per axis, not a distance.
\<close>

definition near :: "Pixel \<Rightarrow> Pixel \<Rightarrow> bool" where
  "near a b = (\<bar>x a - x b\<bar> < 5 \<and> \<bar>y a - y b\<bar> < 5)"

text \<open>A grid is rectangular when every row has the width of the first one.\<close>

definition rect :: "Image \<Rightarrow> bool" where
  "rect img = (\<forall>row\<in>set (is_white img). length row = first_row_size img)"

text \<open>
  The state of the flood fill after at most \<open>n\<close> iterations of its loop: the loop of
  \<open>BFS_loop\<close>, stopped after \<open>n\<close> rounds.
\<close>

fun BFS_iter :: "nat \<Rightarrow> Image \<Rightarrow> bfs_state \<Rightarrow> error + bfs_state" where
  "BFS_iter 0 img s = Inr s"
| "BFS_iter (Suc n) img s =
     (if BFS_cond s
      then (case BFS_body img s of Inl e \<Rightarrow> Inl e | Inr s' \<Rightarrow> BFS_iter n img s')
      else Inr s)"

text \<open>
  The loop invariant of the flood fill started at \<open>start\<close> with the output vector \<open>out\<close>:
  \<open>used\<close> has the extents of the image; the pushes are the pops followed by the queue,
  without repetition, in bounds, and they are the marked cells; every pushed pixel is the
  seed or a neighbour of a popped one; the counters hold 0 and 1; the output has gained
  the popped pixels that are not white.
\<close>

definition BFS_inv :: "Image \<Rightarrow> Pixel \<Rightarrow> Pixel list \<Rightarrow> bfs_state \<Rightarrow> bool" where
  "BFS_inv img start out s =
     (length (used s) = GetRows img \<and>
      (\<forall>row\<in>set (used s). length row = first_row_size img) \<and>
      pushed s = popped s @ queue s \<and>
      distinct (pushed s) \<and>
      (\<forall>p\<in>set (pushed s). IsCorrect img (x p) (y p)) \<and>
      (\<forall>p. IsCorrect img (x p) (y p) \<longrightarrow>
           used s ! nat (x p) ! nat (y p) = (p \<in> set (pushed s))) \<and>
      (\<forall>p\<in>set (pushed s). p = start \<or>
           (\<exists>q\<in>set (popped s). p \<in> set (GetNeighbours img (x q) (y q)))) \<and>
      white s = 0 \<and> black s = 1 \<and>
      black_pixels s = out @ filter (\<lambda>p. IsWhite img (x p) (y p) = Inr False) (popped s))"

text \<open>
  The pushes of the flood fill are closed: the seed has been pushed, and so has every
  pixel that \<open>GetNeighbours\<close> lists for a popped pixel.
\<close>

definition BFS_closed :: "Image \<Rightarrow> Pixel \<Rightarrow> bfs_state \<Rightarrow> bool" where
  "BFS_closed img start s =
     (start \<in> set (pushed s) \<and>
      (\<forall>q\<in>set (popped s). set (GetNeighbours img (x q) (y q)) \<subseteq> set (pushed s)))"

text \<open>
  The four extremal pixels of a non-empty pixel list as the specification words them:
  the leftmost and the rightmost pixel have the minimum and the maximum row coordinate,
  the lowest and the highest pixel the minimum and the maximum column coordinate, and
  among equal coordinates the first pixel of the list is taken. These definitions follow
  the specification, not the source; \<open>GetLeftest\<close> to \<open>GetHighest\<close> above are the source.
\<close>

fun min_pixel :: "(Pixel \<Rightarrow> int) \<Rightarrow> Pixel \<Rightarrow> Pixel list \<Rightarrow> Pixel" where
  "min_pixel f b [] = b"
| "min_pixel f b (p # ps) = min_pixel f (if f p < f b then p else b) ps"

fun max_pixel :: "(Pixel \<Rightarrow> int) \<Rightarrow> Pixel \<Rightarrow> Pixel list \<Rightarrow> Pixel" where
  "max_pixel f b [] = b"
| "max_pixel f b (p # ps) = max_pixel f (if f b < f p then p else b) ps"

fun spec_leftmost :: "Pixel list \<Rightarrow> Pixel" where
  "spec_leftmost (p # ps) = min_pixel x p ps"

fun spec_rightmost :: "Pixel list \<Rightarrow> Pixel" where
  "spec_rightmost (p # ps) = max_pixel x p ps"

fun spec_lowest :: "Pixel list \<Rightarrow> Pixel" where
  "spec_lowest (p # ps) = min_pixel y p ps"

fun spec_highest :: "Pixel list \<Rightarrow> Pixel" where
  "spec_highest (p # ps) = max_pixel y p ps"

text \<open>
  The decision rule of the specification: a junction when no two of the four extremal
  pixels, over the six unordered pairs, are near.
\<close>

definition spec_junction_rule :: "Pixel list \<Rightarrow> bool" where
  "spec_junction_rule pixels =
     (\<not> near (spec_leftmost pixels) (spec_rightmost pixels) \<and>
      \<not> near (spec_leftmost pixels) (spec_lowest pixels) \<and>
      \<not> near (spec_leftmost pixels) (spec_highest pixels) \<and>
      \<not> near (spec_rightmost pixels) (spec_lowest pixels) \<and>
      \<not> near (spec_rightmost pixels) (spec_highest pixels) \<and>
      \<not> near (spec_lowest pixels) (spec_highest pixels))"

subsection \<open>Example images\<close>

text \<open>One row of two samples of intensity 0.\<close>

definition white_1x2 :: Mat where
  "white_1x2 = \<lparr>mat_rows = 1, mat_cols = 2, mat_at = (\<lambda>i j. 0)\<rparr>"

text \<open>Two rows of two samples; the sample in row 1, column 1 is not 0.\<close>

definition corner_2x2 :: Mat where
  "corner_2x2 = \<lparr>mat_rows = 2, mat_cols = 2,
     mat_at = (\<lambda>i j. if (i, j) = (1, 1) then 255 else 0)\<rparr>"

text \<open>
  Six rows of seven samples, all 0 except those at (0, 5), (5, 0) and (5, 6); and the
  same three samples in a grid of 21 rows.
\<close>

definition skip_image :: Mat where
  "skip_image = \<lparr>mat_rows = 6, mat_cols = 7,
     mat_at = (\<lambda>i j. if (i, j) \<in> {(0, 5), (5, 0), (5, 6)} then 255 else 0)\<rparr>"

definition tall_image :: Mat where
  "tall_image = \<lparr>mat_rows = 21, mat_cols = 7,
     mat_at = (\<lambda>i j. if (i, j) \<in> {(0, 5), (5, 0), (5, 6)} then 255 else 0)\<rparr>"

text \<open>The empty matrix that \<open>cv::imread\<close> returns for a file it cannot decode.\<close>

definition empty_mat :: Mat where
  "empty_mat = \<lparr>mat_rows = 0, mat_cols = 0, mat_at = (\<lambda>i j. 0)\<rparr>"

section \<open>The classifier and the extremal searches\<close>

lemma AreSimilar_near: "AreSimilar a b = near a b"
  by (simp add: AreSimilar_def AreSimilar_int_def near_def)

lemma GetLowest_loop_keeps:
  "\<forall>p\<in>set ps. m \<le> y p \<Longrightarrow> GetLowest_loop ps best m = best"
  by (induction ps arbitrary: best m) auto

lemma GetHighest_loop_keeps:
  "\<forall>p\<in>set ps. y p \<le> m \<Longrightarrow> GetHighest_loop ps best m = best"
  by (induction ps arbitrary: best m) auto

lemma GetHighest_loop_max:
  "\<exists>p\<in>set ps. m < y p \<Longrightarrow>
     GetHighest_loop ps best m \<in> set ps \<and> m < y (GetHighest_loop ps best m) \<and>
     (\<forall>q\<in>set ps. y q \<le> y (GetHighest_loop ps best m))"
proof (induction ps arbitrary: best m)
  case Nil
  then show ?case by simp
next
  case (Cons p ps)
  show ?case
  proof (cases "m < y p")
    case True
    show ?thesis
    proof (cases "\<exists>q\<in>set ps. y p < y q")
      case True
      from Cons.IH [OF True, of p] \<open>m < y p\<close> show ?thesis by force
    next
      case False
      then have "\<forall>q\<in>set ps. y q \<le> y p" by auto
      with GetHighest_loop_keeps [OF this, of p] \<open>m < y p\<close> show ?thesis by simp
    qed
  next
    case False
    with Cons.prems have ex: "\<exists>q\<in>set ps. m < y q" by auto
    from Cons.IH [OF ex, of best] False show ?thesis by force
  qed
qed

lemma classify_rule:
  "classify ps =
     (\<not> near (GetLeftest ps) (GetRightest ps) \<and>
      \<not> near (GetLeftest ps) (GetLowest ps) \<and>
      \<not> near (GetLeftest ps) (GetHighest ps) \<and>
      \<not> near (GetRightest ps) (GetLowest ps) \<and>
      \<not> near (GetRightest ps) (GetHighest ps) \<and>
      \<not> near (GetLowest ps) (GetHighest ps))"
  by (simp add: classify_def Let_def AreSimilar_near)

lemma min_pixel_least:
  "min_pixel f b ps \<in> set (b # ps) \<and> (\<forall>q\<in>set (b # ps). f (min_pixel f b ps) \<le> f q)"
proof (induction ps arbitrary: b)
  case Nil
  show ?case by simp
next
  case (Cons p ps)
  from Cons [of "if f p < f b then p else b"] show ?case by (auto split: if_splits)
qed

lemma max_pixel_greatest:
  "max_pixel f b ps \<in> set (b # ps) \<and> (\<forall>q\<in>set (b # ps). f q \<le> f (max_pixel f b ps))"
proof (induction ps arbitrary: b)
  case Nil
  show ?case by simp
next
  case (Cons p ps)
  from Cons [of "if f b < f p then p else b"] show ?case by (auto split: if_splits)
qed

lemma spec_lowest_least:
  "pixels \<noteq> [] \<Longrightarrow>
     spec_lowest pixels \<in> set pixels \<and> (\<forall>q\<in>set pixels. y (spec_lowest pixels) \<le> y q)"
  using min_pixel_least [of y "hd pixels" "tl pixels"] by (cases pixels) auto

lemma spec_rightmost_greatest:
  "pixels \<noteq> [] \<Longrightarrow>
     spec_rightmost pixels \<in> set pixels \<and> (\<forall>q\<in>set pixels. x q \<le> x (spec_rightmost pixels))"
  using max_pixel_greatest [of x "hd pixels" "tl pixels"] by (cases pixels) auto

text \<open>
  Claim C1 fails on the code. \<open>IsIntersection\<close> applies the test of the six pairs to the
  results of its four searches, and \<open>GetLowest\<close> returns the default pixel (0, 0) in place
  of the pixel with the minimum column coordinate. On \<open>skip_image\<close>, started at (0, 0),
  the flood fill collects (5, 0), (0, 5), (5, 6). The lowest of these pixels is (5, 0),
  which is also the rightmost one, so two of the four extremal pixels are near and the
  rule of the claim gives no junction; the code tests (0, 0) instead and answers true.
\<close>

theorem IsIntersection_lowest_defect:
  "map_option (map_sum id black_pixels) (BFS \<lparr>x = 0, y = 0\<rparr> (Image_ctor skip_image) []) =
     Some (Inr [\<lparr>x = 5, y = 0\<rparr>, \<lparr>x = 0, y = 5\<rparr>, \<lparr>x = 5, y = 6\<rparr>]) \<and>
   IsIntersection \<lparr>x = 0, y = 0\<rparr> (Image_ctor skip_image) = Some (Inr True) \<and>
   classify [\<lparr>x = 5, y = 0\<rparr>, \<lparr>x = 0, y = 5\<rparr>, \<lparr>x = 5, y = 6\<rparr>] \<and>
   spec_leftmost [\<lparr>x = 5, y = 0\<rparr>, \<lparr>x = 0, y = 5\<rparr>, \<lparr>x = 5, y = 6\<rparr>] = \<lparr>x = 0, y = 5\<rparr> \<and>
   spec_rightmost [\<lparr>x = 5, y = 0\<rparr>, \<lparr>x = 0, y = 5\<rparr>, \<lparr>x = 5, y = 6\<rparr>] = \<lparr>x = 5, y = 0\<rparr> \<and>
   spec_lowest [\<lparr>x = 5, y = 0\<rparr>, \<lparr>x = 0, y = 5\<rparr>, \<lparr>x = 5, y = 6\<rparr>] = \<lparr>x = 5, y = 0\<rparr> \<and>
   spec_highest [\<lparr>x = 5, y = 0\<rparr>, \<lparr>x = 0, y = 5\<rparr>, \<lparr>x = 5, y = 6\<rparr>] = \<lparr>x = 5, y = 6\<rparr> \<and>
   GetLeftest [\<lparr>x = 5, y = 0\<rparr>, \<lparr>x = 0, y = 5\<rparr>, \<lparr>x = 5, y = 6\<rparr>] = \<lparr>x = 0, y = 5\<rparr> \<and>
   GetRightest [\<lparr>x = 5, y = 0\<rparr>, \<lparr>x = 0, y = 5\<rparr>, \<lparr>x = 5, y = 6\<rparr>] = \<lparr>x = 5, y = 0\<rparr> \<and>
   GetLowest [\<lparr>x = 5, y = 0\<rparr>, \<lparr>x = 0, y = 5\<rparr>, \<lparr>x = 5, y = 6\<rparr>] = \<lparr>x = 0, y = 0\<rparr> \<and>
   GetHighest [\<lparr>x = 5, y = 0\<rparr>, \<lparr>x = 0, y = 5\<rparr>, \<lparr>x = 5, y = 6\<rparr>] = \<lparr>x = 5, y = 6\<rparr> \<and>
   near (spec_rightmost [\<lparr>x = 5, y = 0\<rparr>, \<lparr>x = 0, y = 5\<rparr>, \<lparr>x = 5, y = 6\<rparr>])
        (spec_lowest [\<lparr>x = 5, y = 0\<rparr>, \<lparr>x = 0, y = 5\<rparr>, \<lparr>x = 5, y = 6\<rparr>]) \<and>
   \<not> spec_junction_rule [\<lparr>x = 5, y = 0\<rparr>, \<lparr>x = 0, y = 5\<rparr>, \<lparr>x = 5, y = 6\<rparr>]"
  by code_simp

text \<open>
  Claim C4. The pixel lists are lists of image pixels: their column coordinates are not
  negative. \<open>GetLowest\<close> returns the default pixel (0, 0) on every list, whatever the list
  holds (no coordinate of type \<open>int\<close> is below the bound \<open>INT_MIN\<close> it starts from), so on
  a non-empty list without the pixel (0, 0) its result is not even a pixel of the list.
  \<open>GetHighest\<close> returns, on every non-empty list, a pixel of the list whose column
  coordinate is the maximum of the list.
\<close>

theorem extremal_searches:
  "((\<forall>p\<in>set pixels. INT_MIN \<le> y p) \<longrightarrow>
      GetLowest pixels = \<lparr>x = 0, y = 0\<rparr> \<and>
      (\<lparr>x = 0, y = 0\<rparr> \<notin> set pixels \<longrightarrow> GetLowest pixels \<notin> set pixels)) \<and>
   (pixels \<noteq> [] \<and> (\<forall>p\<in>set pixels. 0 \<le> y p) \<longrightarrow>
      GetHighest pixels \<in> set pixels \<and> (\<forall>q\<in>set pixels. y q \<le> y (GetHighest pixels)))"
proof (intro conjI impI)
  assume "\<forall>p\<in>set pixels. INT_MIN \<le> y p"
  with GetLowest_loop_keeps [of pixels INT_MIN Pixel_default]
  show low: "GetLowest pixels = \<lparr>x = 0, y = 0\<rparr>"
    by (simp add: GetLowest_def Pixel_default_def)
  assume "\<lparr>x = 0, y = 0\<rparr> \<notin> set pixels"
  with low show "GetLowest pixels \<notin> set pixels" by simp
next
  assume a: "pixels \<noteq> [] \<and> (\<forall>p\<in>set pixels. 0 \<le> y p)"
  then obtain p where "p \<in> set pixels" by (cases pixels) auto
  with a have "0 \<le> y p" by blast
  then have "INT_MIN < y p" by (simp add: INT_MIN_def)
  with \<open>p \<in> set pixels\<close> have "\<exists>p\<in>set pixels. INT_MIN < y p" by blast
  from GetHighest_loop_max [OF this, of Pixel_default]
  show "GetHighest pixels \<in> set pixels" "\<forall>q\<in>set pixels. y q \<le> y (GetHighest pixels)"
    by (simp_all add: GetHighest_def)
qed

theorem extremal_searches_witness:
  "[\<lparr>x = 3, y = 4\<rparr>, \<lparr>x = 1, y = 9\<rparr>, \<lparr>x = 2, y = 2\<rparr>] \<noteq> [] \<and>
   0 \<le> y \<lparr>x = 3, y = 4\<rparr> \<and> 0 \<le> y \<lparr>x = 1, y = 9\<rparr> \<and> 0 \<le> y \<lparr>x = 2, y = 2\<rparr> \<and>
   GetLowest [\<lparr>x = 3, y = 4\<rparr>, \<lparr>x = 1, y = 9\<rparr>, \<lparr>x = 2, y = 2\<rparr>] = \<lparr>x = 0, y = 0\<rparr> \<and>
   GetLowest [\<lparr>x = 3, y = 4\<rparr>, \<lparr>x = 1, y = 9\<rparr>, \<lparr>x = 2, y = 2\<rparr>]
     \<notin> set [\<lparr>x = 3, y = 4\<rparr>, \<lparr>x = 1, y = 9\<rparr>, \<lparr>x = 2, y = 2\<rparr>] \<and>
   GetHighest [\<lparr>x = 3, y = 4\<rparr>, \<lparr>x = 1, y = 9\<rparr>, \<lparr>x = 2, y = 2\<rparr>] = \<lparr>x = 1, y = 9\<rparr>"
proof -
  let ?ps = "[\<lparr>x = 3, y = 4\<rparr>, \<lparr>x = 1, y = 9\<rparr>, \<lparr>x = 2, y = 2\<rparr>]"
  have h1: "\<forall>p\<in>set ?ps. INT_MIN \<le> y p" by (simp add: INT_MIN_def)
  have h2: "?ps \<noteq> [] \<and> (\<forall>p\<in>set ?ps. 0 \<le> y p)" by simp
  have h3: "\<lparr>x = 0, y = 0\<rparr> \<notin> set ?ps" by simp
  from extremal_searches [of ?ps] h1 h2 h3
  have low: "GetLowest ?ps = \<lparr>x = 0, y = 0\<rparr>"
    and out: "GetLowest ?ps \<notin> set ?ps"
    and mem: "GetHighest ?ps \<in> set ?ps"
    and top: "\<forall>q\<in>set ?ps. y q \<le> y (GetHighest ?ps)"
    by blast+
  from top have "9 \<le> y (GetHighest ?ps)" by simp
  with mem have "GetHighest ?ps = \<lparr>x = 1, y = 9\<rparr>" by auto
  with low out show ?thesis by simp
qed

section \<open>Deduplication\<close>

lemma dedup_inner_spec:
  "length bad = length cs \<Longrightarrow>
     length (dedup_inner cs i j bad) = length cs \<and>
     (\<forall>k<length cs. dedup_inner cs i j bad ! k = (bad ! k \<or> (j \<le> k \<and> AreSimilar (cs ! i) (cs ! k))))"
proof (induction cs i j bad rule: dedup_inner.induct)
  case (1 cs i j bad)
  show ?case
  proof (cases "j < length cs")
    case False
    then show ?thesis using "1.prems" by (subst dedup_inner.simps, subst dedup_inner.simps) auto
  next
    case True
    let ?bad = "if AreSimilar (cs ! i) (cs ! j) then bad[j := True] else bad"
    have len: "length ?bad = length cs" using "1.prems" by simp
    note IH = "1.IH" [OF True len]
    have unf: "dedup_inner cs i j bad = dedup_inner cs i (j + 1) ?bad"
      using True by (subst dedup_inner.simps) simp
    show ?thesis
      unfolding unf
    proof (intro conjI allI impI)
      show "length (dedup_inner cs i (j + 1) ?bad) = length cs" using IH by simp
    next
      fix k assume k: "k < length cs"
      with IH have "dedup_inner cs i (j + 1) ?bad ! k =
          (?bad ! k \<or> (j + 1 \<le> k \<and> AreSimilar (cs ! i) (cs ! k)))" by blast
      also have "\<dots> = (bad ! k \<or> (j \<le> k \<and> AreSimilar (cs ! i) (cs ! k)))"
        using k "1.prems" True by (cases "k = j") (auto simp: nth_list_update)
      finally show "dedup_inner cs i (j + 1) ?bad ! k =
          (bad ! k \<or> (j \<le> k \<and> AreSimilar (cs ! i) (cs ! k)))" .
    qed
  qed
qed

lemma dedup_outer_spec:
  "length bad = length cs \<Longrightarrow>
     length (dedup_outer cs i bad) = length cs \<and>
     (\<forall>k<length cs. dedup_outer cs i bad ! k =
        (bad ! k \<or> (\<exists>i'. i \<le> i' \<and> i' < k \<and> AreSimilar (cs ! i') (cs ! k))))"
proof (induction cs i bad rule: dedup_outer.induct)
  case (1 cs i bad)
  show ?case
  proof (cases "i < length cs")
    case False
    then show ?thesis using "1.prems" by (subst dedup_outer.simps, subst dedup_outer.simps) auto
  next
    case True
    let ?bad = "dedup_inner cs i (i + 1) bad"
    note inner = dedup_inner_spec [OF "1.prems", of i "i + 1"]
    then have len: "length ?bad = length cs" by simp
    note IH = "1.IH" [OF True len]
    have unf: "dedup_outer cs i bad = dedup_outer cs (i + 1) ?bad"
      using True by (subst dedup_outer.simps) simp
    show ?thesis
      unfolding unf
    proof (intro conjI allI impI)
      show "length (dedup_outer cs (i + 1) ?bad) = length cs" using IH by simp
    next
      fix k assume k: "k < length cs"
      with IH have "dedup_outer cs (i + 1) ?bad ! k =
          (?bad ! k \<or> (\<exists>i'. i + 1 \<le> i' \<and> i' < k \<and> AreSimilar (cs ! i') (cs ! k)))" by blast
      also have "?bad ! k = (bad ! k \<or> (i + 1 \<le> k \<and> AreSimilar (cs ! i) (cs ! k)))"
        using inner k by blast
      also have "((bad ! k \<or> (i + 1 \<le> k \<and> AreSimilar (cs ! i) (cs ! k))) \<or>
            (\<exists>i'. i + 1 \<le> i' \<and> i' < k \<and> AreSimilar (cs ! i') (cs ! k))) =
          (bad ! k \<or> (\<exists>i'. i \<le> i' \<and> i' < k \<and> AreSimilar (cs ! i') (cs ! k)))"
        (is "?L = ?R")
      proof
        assume ?L then show ?R by (auto intro: exI [of _ i])
      next
        assume ?R
        then show ?L
        proof (elim disjE exE conjE)
          fix i' assume a: "i \<le> i'" "i' < k" "AreSimilar (cs ! i') (cs ! k)"
          show ?L
          proof (cases "i' = i")
            case True with a show ?thesis by auto
          next
            case False with a have "i + 1 \<le> i'" by simp
            with a show ?thesis by blast
          qed
        qed simp
      qed
      finally show "dedup_outer cs (i + 1) ?bad ! k =
          (bad ! k \<or> (\<exists>i'. i \<le> i' \<and> i' < k \<and> AreSimilar (cs ! i') (cs ! k)))" .
    qed
  qed
qed

lemma dedup_spec:
  "length (dedup cs) = length cs \<and>
   (\<forall>j<length cs. dedup cs ! j = (\<exists>i<j. AreSimilar (cs ! i) (cs ! j)))"
  using dedup_outer_spec [of "replicate (length cs) False" cs 0]
  by (simp add: dedup_def)

lemma count_loop_filter:
  "count_loop bs n = n + int (length (filter (\<lambda>b. \<not> b) bs))"
  by (induction bs arbitrary: n) auto

lemma dedup_near:
  "j < length cs \<Longrightarrow> dedup cs ! j = (\<exists>i<j. near (cs ! i) (cs ! j))"
  using dedup_spec [of cs] by (simp add: AreSimilar_near)

lemma dedup_take:
  assumes "k \<le> length cs"
  shows "take k (dedup cs) = dedup (take k cs)"
proof (rule nth_equalityI)
  show "length (take k (dedup cs)) = length (dedup (take k cs))"
    using assms dedup_spec [of cs] dedup_spec [of "take k cs"] by simp
next
  fix j assume "j < length (take k (dedup cs))"
  then have j: "j < k" "j < length cs" using assms dedup_spec [of cs] by simp_all
  have "take k (dedup cs) ! j = (\<exists>i<j. near (cs ! i) (cs ! j))"
    using j dedup_near [of j cs] by simp
  also have "\<dots> = (\<exists>i<j. near (take k cs ! i) (take k cs ! j))"
    using j by auto
  also have "\<dots> = dedup (take k cs) ! j"
    using j assms dedup_near [of j "take k cs"] by simp
  finally show "take k (dedup cs) ! j = dedup (take k cs) ! j" .
qed

text \<open>
  Claim C7. The flag array has one entry per candidate; the entry of candidate \<open>j\<close> is
  set exactly when some candidate at an earlier position is near it. The flags of the
  first \<open>k\<close> candidates are those the first \<open>k\<close> candidates get on their own, so a
  later candidate never changes the flag of an earlier one. The counting loop yields the
  number of entries that are not set, and this is the number \<open>main\<close> prints for the
  candidates that the scan returns.
\<close>

theorem dedup_characterisation:
  "length (dedup cs) = length cs \<and>
   (\<forall>j<length cs. dedup cs ! j = (\<exists>i<j. near (cs ! i) (cs ! j))) \<and>
   (\<forall>k\<le>length cs. take k (dedup cs) = dedup (take k cs)) \<and>
   count_loop (dedup cs) 0 = int (length (filter (\<lambda>is_bad. \<not> is_bad) (dedup cs))) \<and>
   (2 \<le> argc \<and> scan (Image_ctor decoded) 0 [] = Some (Inr cs) \<longrightarrow>
      main argc decoded =
        Some (Inr (show_int (int (length (filter (\<lambda>is_bad. \<not> is_bad) (dedup cs)))) @ newline, 0)))"
proof (intro conjI allI impI)
  show "length (dedup cs) = length cs" using dedup_spec [of cs] by simp
  show "count_loop (dedup cs) 0 = int (length (filter (\<lambda>is_bad. \<not> is_bad) (dedup cs)))"
    by (simp add: count_loop_filter)
next
  fix j assume "j < length cs"
  then show "dedup cs ! j = (\<exists>i<j. near (cs ! i) (cs ! j))" by (rule dedup_near)
next
  fix k assume "k \<le> length cs"
  then show "take k (dedup cs) = dedup (take k cs)" by (rule dedup_take)
next
  assume "2 \<le> argc \<and> scan (Image_ctor decoded) 0 [] = Some (Inr cs)"
  then show "main argc decoded =
      Some (Inr (show_int (int (length (filter (\<lambda>is_bad. \<not> is_bad) (dedup cs)))) @ newline, 0))"
    by (simp add: main_def Let_def count_loop_filter)
qed

theorem dedup_characterisation_witness:
  "length (dedup [\<lparr>x = 0, y = 0\<rparr>, \<lparr>x = 10, y = 10\<rparr>, \<lparr>x = 2, y = 3\<rparr>]) = 3 \<and>
   \<not> dedup [\<lparr>x = 0, y = 0\<rparr>, \<lparr>x = 10, y = 10\<rparr>, \<lparr>x = 2, y = 3\<rparr>] ! 0 \<and>
   \<not> dedup [\<lparr>x = 0, y = 0\<rparr>, \<lparr>x = 10, y = 10\<rparr>, \<lparr>x = 2, y = 3\<rparr>] ! 1 \<and>
   dedup [\<lparr>x = 0, y = 0\<rparr>, \<lparr>x = 10, y = 10\<rparr>, \<lparr>x = 2, y = 3\<rparr>] ! 2 \<and>
   (2::int) \<le> 2 \<and>
   scan (Image_ctor tall_image) 0 [] = Some (Inr [\<lparr>x = 0, y = 0\<rparr>]) \<and>
   main 2 tall_image = Some (Inr (''1'' @ newline, 0))"
proof -
  let ?cs = "[\<lparr>x = 0, y = 0\<rparr>, \<lparr>x = 10, y = 10\<rparr>, \<lparr>x = 2, y = 3\<rparr>]"
  note T = dedup_characterisation [of ?cs]
  from T have len: "length (dedup ?cs) = 3" by simp
  from T have ch: "\<forall>j<length ?cs. dedup ?cs ! j = (\<exists>i<j. near (?cs ! i) (?cs ! j))"
    by (rule conjunct2 [THEN conjunct1])
  from ch [rule_format, of 0] have f0: "\<not> dedup ?cs ! 0" by simp
  from ch [rule_format, of 1] have f1: "\<not> dedup ?cs ! 1" by (simp add: near_def)
  have "\<exists>i<2. near (?cs ! i) (?cs ! 2)"
    by (rule exI [of _ 0]) (simp add: near_def)
  with ch [rule_format, of 2] have f2: "dedup ?cs ! 2" by simp
  from len f0 f1 f2
  have "length (dedup ?cs) = 3 \<and> \<not> dedup ?cs ! 0 \<and> \<not> dedup ?cs ! 1 \<and> dedup ?cs ! 2"
    by simp
  moreover have sc: "scan (Image_ctor tall_image) 0 [] = Some (Inr [\<lparr>x = 0, y = 0\<rparr>])"
    by code_simp
  moreover have "dedup [\<lparr>x = 0, y = 0\<rparr>] = [False]"
    by (simp add: dedup_def)
  with dedup_characterisation [of "[\<lparr>x = 0, y = 0\<rparr>]" 2 tall_image] sc
  have "main 2 tall_image = Some (Inr (''1'' @ newline, 0))"
    by (simp add: show_int_def digit_char_def)
  ultimately show ?thesis by simp
qed

text \<open>
  Claim C10. A candidate that is itself flagged still flags every later candidate near
  it: the flag of \<open>j\<close> is set as soon as some earlier candidate is near \<open>j\<close>, whatever the
  flag of that candidate. In a chain where \<open>a\<close> is near \<open>b\<close>, \<open>b\<close> is near \<open>c\<close> and \<open>a\<close> is
  not near \<open>c\<close>, both \<open>b\<close> and \<open>c\<close> are flagged and the count is 1.
\<close>

theorem dedup_chain:
  "(\<forall>i j. i < j \<and> j < length cs \<and> dedup cs ! i \<and> near (cs ! i) (cs ! j) \<longrightarrow> dedup cs ! j) \<and>
   (near a b \<and> near b c \<and> \<not> near a c \<longrightarrow>
      dedup [a, b, c] = [False, True, True] \<and> count_loop (dedup [a, b, c]) 0 = 1)"
proof (intro conjI allI impI)
  fix i j assume "i < j \<and> j < length cs \<and> dedup cs ! i \<and> near (cs ! i) (cs ! j)"
  then show "dedup cs ! j" using dedup_near [of j cs] by auto
next
  assume "near a b \<and> near b c \<and> \<not> near a c"
  then have d: "dedup [a, b, c] = [False, True, True]"
    by (simp add: dedup_def AreSimilar_near)
  then show "dedup [a, b, c] = [False, True, True]" .
  from d show "count_loop (dedup [a, b, c]) 0 = 1" by simp
qed

theorem dedup_chain_witness:
  "near \<lparr>x = 0, y = 0\<rparr> \<lparr>x = 0, y = 4\<rparr> \<and> near \<lparr>x = 0, y = 4\<rparr> \<lparr>x = 0, y = 8\<rparr> \<and>
   \<not> near \<lparr>x = 0, y = 0\<rparr> \<lparr>x = 0, y = 8\<rparr> \<and>
   dedup [\<lparr>x = 0, y = 0\<rparr>, \<lparr>x = 0, y = 4\<rparr>, \<lparr>x = 0, y = 8\<rparr>] = [False, True, True] \<and>
   dedup [\<lparr>x = 0, y = 0\<rparr>, \<lparr>x = 0, y = 4\<rparr>, \<lparr>x = 0, y = 8\<rparr>] ! 1 \<and>
   dedup [\<lparr>x = 0, y = 0\<rparr>, \<lparr>x = 0, y = 4\<rparr>, \<lparr>x = 0, y = 8\<rparr>] ! 2 \<and>
   count_loop (dedup [\<lparr>x = 0, y = 0\<rparr>, \<lparr>x = 0, y = 4\<rparr>, \<lparr>x = 0, y = 8\<rparr>]) 0 = 1"
proof -
  have h: "near \<lparr>x = 0, y = 0\<rparr> \<lparr>x = 0, y = 4\<rparr> \<and> near \<lparr>x = 0, y = 4\<rparr> \<lparr>x = 0, y = 8\<rparr> \<and>
      \<not> near \<lparr>x = 0, y = 0\<rparr> \<lparr>x = 0, y = 8\<rparr>"
    by (simp add: near_def)
  from dedup_chain [of "[\<lparr>x = 0, y = 0\<rparr>, \<lparr>x = 0, y = 4\<rparr>, \<lparr>x = 0, y = 8\<rparr>]"
      "\<lparr>x = 0, y = 0\<rparr>" "\<lparr>x = 0, y = 4\<rparr>" "\<lparr>x = 0, y = 8\<rparr>"] h
  have d: "dedup [\<lparr>x = 0, y = 0\<rparr>, \<lparr>x = 0, y = 4\<rparr>, \<lparr>x = 0, y = 8\<rparr>] = [False, True, True] \<and>
      count_loop (dedup [\<lparr>x = 0, y = 0\<rparr>, \<lparr>x = 0, y = 4\<rparr>, \<lparr>x = 0, y = 8\<rparr>]) 0 = 1"
    by blast
  then show ?thesis using h by simp
qed

section \<open>The flood fill: invariant and termination\<close>

lemma rect_Image_ctor: "rect (Image_ctor m)"
  by (auto simp: rect_def Image_ctor_def first_row_size_def)

lemma IsCorrect_cell_ok:
  "rect img \<Longrightarrow> IsCorrect img r c \<Longrightarrow> cell_ok (is_white img) r c"
  by (auto simp: rect_def IsCorrect_def cell_ok_def first_row_size_def)

lemma IsCorrect_used_ok:
  "length u = GetRows img \<Longrightarrow> \<forall>row\<in>set u. length row = first_row_size img \<Longrightarrow>
   IsCorrect img r c \<Longrightarrow> cell_ok u r c"
  by (auto simp: IsCorrect_def cell_ok_def first_row_size_def GetRows_def)

lemma GetNeighbours_IsCorrect:
  "p \<in> set (GetNeighbours img r c) \<Longrightarrow> IsCorrect img (x p) (y p)"
  by (auto simp: GetNeighbours_def split: if_splits)

lemma cell_set_length: "length (cell_set g r c v) = length g"
  by (simp add: cell_set_def)

lemma cell_set_rows:
  "\<forall>row\<in>set g. length row = n \<Longrightarrow> \<forall>row\<in>set (cell_set g r c v). length row = n"
proof
  fix row assume a: "\<forall>row\<in>set g. length row = n" and "row \<in> set (cell_set g r c v)"
  then have "row \<in> insert ((g ! nat r)[nat c := v]) (set g)"
    using set_update_subset_insert [of g "nat r"] by (auto simp: cell_set_def)
  then show "length row = n"
  proof
    assume e: "row = (g ! nat r)[nat c := v]"
    show ?thesis
    proof (cases "nat r < length g")
      case True
      with a e show ?thesis by simp
    next
      case False
      then have "length g \<le> nat r" by simp
      then have "cell_set g r c v = g" unfolding cell_set_def by (rule list_update_beyond)
      with \<open>row \<in> set (cell_set g r c v)\<close> a show ?thesis by simp
    qed
  next
    assume "row \<in> set g"
    with a show ?thesis by blast
  qed
qed

lemma cell_set_nth:
  "cell_ok g r c \<Longrightarrow> cell_ok g r' c' \<Longrightarrow>
   cell_set g r c v ! nat r' ! nat c' = (if r' = r \<and> c' = c then v else g ! nat r' ! nat c')"
  by (auto simp: cell_set_def cell_ok_def nth_list_update)

lemma Pixel_eq_iff: "(p = (q::Pixel)) = (x p = x q \<and> y p = y q)"
  by auto

lemma BFS_visit_inv:
  "BFS_inv img start out s \<Longrightarrow>
   \<forall>p\<in>set ns. IsCorrect img (x p) (y p) \<and>
      (\<exists>q\<in>set (popped s). p \<in> set (GetNeighbours img (x q) (y q))) \<Longrightarrow>
   \<exists>s'. BFS_visit ns s = Inr s' \<and> BFS_inv img start out s' \<and> popped s' = popped s \<and>
        set (pushed s') = set (pushed s) \<union> set ns"
proof (induction ns arbitrary: s)
  case Nil
  then show ?case by simp
next
  case (Cons p ns)
  from Cons.prems have inv: "BFS_inv img start out s"
    and pc: "IsCorrect img (x p) (y p)"
    and pn: "\<exists>q\<in>set (popped s). p \<in> set (GetNeighbours img (x q) (y q))"
    and rest: "\<forall>p\<in>set ns. IsCorrect img (x p) (y p) \<and>
      (\<exists>q\<in>set (popped s). p \<in> set (GetNeighbours img (x q) (y q)))"
    by auto
  from inv have dims: "length (used s) = GetRows img"
      "\<forall>row\<in>set (used s). length row = first_row_size img"
    by (auto simp: BFS_inv_def)
  have ok: "cell_ok (used s) (x p) (y p)"
    by (rule IsCorrect_used_ok [OF dims pc])
  have mark: "used s ! nat (x p) ! nat (y p) = (p \<in> set (pushed s))"
    using inv pc by (simp add: BFS_inv_def)
  show ?case
  proof (cases "p \<in> set (pushed s)")
    case True
    with ok mark have "BFS_visit (p # ns) s = BFS_visit ns s"
      by (simp add: cell_get_def)
    with Cons.IH [OF inv rest] True show ?thesis by auto
  next
    case False
    let ?s = "s\<lparr>queue := queue s @ [p], pushed := pushed s @ [p],
                 used := cell_set (used s) (x p) (y p) True\<rparr>"
    have step: "BFS_visit (p # ns) s = BFS_visit ns ?s"
      using ok mark False by (simp add: cell_get_def)
    have marks: "\<forall>p'. IsCorrect img (x p') (y p') \<longrightarrow>
           used ?s ! nat (x p') ! nat (y p') = (p' \<in> set (pushed ?s))"
    proof (intro allI impI)
      fix p' :: Pixel assume c': "IsCorrect img (x p') (y p')"
      have ok': "cell_ok (used s) (x p') (y p')"
        by (rule IsCorrect_used_ok [OF dims c'])
      have "used s ! nat (x p') ! nat (y p') = (p' \<in> set (pushed s))"
        using inv c' by (simp add: BFS_inv_def)
      then show "used ?s ! nat (x p') ! nat (y p') = (p' \<in> set (pushed ?s))"
        using cell_set_nth [OF ok ok', of True] by (auto simp: Pixel_eq_iff)
    qed
    have inv': "BFS_inv img start out ?s"
      unfolding BFS_inv_def
    proof (intro conjI)
      show "length (used ?s) = GetRows img" using dims by (simp add: cell_set_length)
      show "\<forall>row\<in>set (used ?s). length row = first_row_size img"
        using cell_set_rows [OF dims(2)] by simp
      show "pushed ?s = popped ?s @ queue ?s" using inv by (simp add: BFS_inv_def)
      have "distinct (pushed s)" using inv unfolding BFS_inv_def by blast
      then show "distinct (pushed ?s)" using False by simp
      show "\<forall>p\<in>set (pushed ?s). IsCorrect img (x p) (y p)"
        using inv pc by (auto simp: BFS_inv_def)
      show "\<forall>p'. IsCorrect img (x p') (y p') \<longrightarrow>
           used ?s ! nat (x p') ! nat (y p') = (p' \<in> set (pushed ?s))" by (rule marks)
      show "\<forall>p\<in>set (pushed ?s). p = start \<or>
           (\<exists>q\<in>set (popped ?s). p \<in> set (GetNeighbours img (x q) (y q)))"
        using inv pn by (auto simp: BFS_inv_def)
      show "white ?s = 0" "black ?s = 1" using inv by (simp_all add: BFS_inv_def)
      show "black_pixels ?s = out @ filter (\<lambda>p. IsWhite img (x p) (y p) = Inr False) (popped ?s)"
        using inv by (simp add: BFS_inv_def)
    qed
    have rest': "\<forall>p\<in>set ns. IsCorrect img (x p) (y p) \<and>
      (\<exists>q\<in>set (popped ?s). p \<in> set (GetNeighbours img (x q) (y q)))"
      using rest by simp
    from Cons.IH [OF inv' rest'] step show ?thesis by auto
  qed
qed

lemma BFS_body_inv:
  assumes r: "rect img" and inv: "BFS_inv img start out s" and q: "queue s \<noteq> []"
  shows "\<exists>s'. BFS_body img s = Inr s' \<and> BFS_inv img start out s' \<and>
           popped s' = popped s @ [hd (queue s)] \<and>
           set (pushed s') =
             set (pushed s) \<union> set (GetNeighbours img (x (hd (queue s))) (y (hd (queue s))))"
proof -
  from q obtain nxt rest where qs: "queue s = nxt # rest" by (cases "queue s") auto
  from inv qs have nc: "IsCorrect img (x nxt) (y nxt)" by (simp add: BFS_inv_def)
  from IsCorrect_cell_ok [OF r nc]
  have w: "IsWhite img (x nxt) (y nxt) = Inr (is_white img ! nat (x nxt) ! nat (y nxt))"
    by (simp add: IsWhite_def cell_get_def)
  let ?w = "is_white img ! nat (x nxt) ! nat (y nxt)"
  let ?s = "s\<lparr>queue := rest, popped := popped s @ [nxt],
               black_pixels := (if \<not> ?w then black_pixels s @ [nxt] else black_pixels s)\<rparr>"
  have body: "BFS_body img s = BFS_visit (GetNeighbours img (x nxt) (y nxt)) ?s"
    by (simp add: BFS_body_def qs w)
  have inv': "BFS_inv img start out ?s"
    using inv qs w by (auto simp: BFS_inv_def)
  have ns: "\<forall>p\<in>set (GetNeighbours img (x nxt) (y nxt)). IsCorrect img (x p) (y p) \<and>
      (\<exists>q\<in>set (popped ?s). p \<in> set (GetNeighbours img (x q) (y q)))"
    by (auto dest: GetNeighbours_IsCorrect)
  from BFS_visit_inv [OF inv' ns] body qs show ?thesis by auto
qed

lemma IsCorrect_count:
  assumes d: "distinct (ps :: Pixel list)" and c: "\<forall>p\<in>set ps. IsCorrect img (x p) (y p)"
  shows "length ps \<le> GetRows img * first_row_size img"
proof -
  let ?f = "\<lambda>(i, j). \<lparr>x = int i, y = int j\<rparr>"
  let ?D = "{..<GetRows img} \<times> {..<first_row_size img}"
  have "set ps \<subseteq> ?f ` ?D"
  proof
    fix p assume "p \<in> set ps"
    with c have "IsCorrect img (x p) (y p)" by blast
    then have "(nat (x p), nat (y p)) \<in> ?D" "p = ?f (nat (x p), nat (y p))"
      by (auto simp: IsCorrect_def GetRows_def first_row_size_def)
    then show "p \<in> ?f ` ?D" by (rule_tac image_eqI)
  qed
  then have "card (set ps) \<le> card (?f ` ?D)" by (intro card_mono) auto
  also have "\<dots> \<le> card ?D" by (rule card_image_le) simp
  also have "\<dots> = GetRows img * first_row_size img" by simp
  finally show ?thesis using d by (simp add: distinct_card)
qed

lemma BFS_cond_inv: "BFS_inv img start out s \<Longrightarrow> BFS_cond s = (queue s \<noteq> [])"
  by (simp add: BFS_inv_def BFS_cond_def MIN_ITERATION_COUNT_def MAX_ITERATION_COUNT_def)

lemma BFS_body_closed:
  assumes "BFS_closed img start s"
    and "popped s' = popped s @ [nxt]"
    and "set (pushed s') = set (pushed s) \<union> set (GetNeighbours img (x nxt) (y nxt))"
  shows "BFS_closed img start s'"
  using assms unfolding BFS_closed_def by auto

lemma BFS_loop_terminates:
  assumes r: "rect img"
  shows "BFS_inv img start out s \<Longrightarrow> BFS_closed img start s \<Longrightarrow>
     \<exists>t. BFS_loop img s = Some (Inr t) \<and> BFS_inv img start out t \<and>
         BFS_closed img start t \<and> queue t = []"
proof (induction "GetRows img * first_row_size img - length (popped s)" arbitrary: s
    rule: less_induct)
  case less
  note inv = less.prems(1) and cl = less.prems(2)
  show ?case
  proof (cases "queue s = []")
    case True
    with inv cl show ?thesis
      by (subst BFS_loop.simps) (simp add: BFS_cond_inv)
  next
    case False
    from BFS_body_inv [OF r inv False] obtain s' where
      body: "BFS_body img s = Inr s'" and inv': "BFS_inv img start out s'" and
      pop: "popped s' = popped s @ [hd (queue s)]" and
      push: "set (pushed s') =
        set (pushed s) \<union> set (GetNeighbours img (x (hd (queue s))) (y (hd (queue s))))"
      by blast
    from BFS_body_closed [OF cl pop push] have cl': "BFS_closed img start s'" .
    have "distinct (popped s')" "\<forall>p\<in>set (popped s'). IsCorrect img (x p) (y p)"
      using inv' by (auto simp: BFS_inv_def)
    from IsCorrect_count [OF this]
    have "length (popped s') \<le> GetRows img * first_row_size img" .
    with pop have dec: "GetRows img * first_row_size img - length (popped s') <
        GetRows img * first_row_size img - length (popped s)" by simp
    from less.hyps [OF dec inv' cl'] obtain t where
      "BFS_loop img s' = Some (Inr t)" "BFS_inv img start out t"
      "BFS_closed img start t" "queue t = []" by blast
    moreover have "BFS_loop img s = BFS_loop img s'"
      using inv False body by (subst BFS_loop.simps) (simp add: BFS_cond_inv)
    ultimately show ?thesis by simp
  qed
qed

lemma BFS_init_inv:
  assumes c: "IsCorrect img (x start) (y start)"
  shows "\<exists>s. BFS_init start img out = Inr s \<and> BFS_inv img start out s \<and>
           BFS_closed img start s"
proof -
  from c have ne: "is_white img \<noteq> []" by (auto simp: IsCorrect_def)
  let ?u0 = "replicate (GetRows img) (replicate (first_row_size img) False)"
  have ok: "cell_ok ?u0 (x start) (y start)"
    using c by (intro IsCorrect_used_ok [of _ img]) auto
  let ?s = "\<lparr>queue = [start], used = cell_set ?u0 (x start) (y start) True,
             black_pixels = out, white = 0, black = 1, pushed = [start], popped = []\<rparr>"
  have init: "BFS_init start img out = Inr ?s"
    using ne ok by (simp add: BFS_init_def GetColumns_def first_row_size_def Let_def)
  have marks: "\<forall>p. IsCorrect img (x p) (y p) \<longrightarrow>
      used ?s ! nat (x p) ! nat (y p) = (p \<in> set (pushed ?s))"
  proof (intro allI impI)
    fix p :: Pixel assume pc: "IsCorrect img (x p) (y p)"
    have ok': "cell_ok ?u0 (x p) (y p)"
      using pc by (intro IsCorrect_used_ok [of _ img]) auto
    have "?u0 ! nat (x p) ! nat (y p) = False"
      using pc by (simp add: IsCorrect_def GetRows_def first_row_size_def)
    then show "used ?s ! nat (x p) ! nat (y p) = (p \<in> set (pushed ?s))"
      using cell_set_nth [OF ok ok', of True] by (auto simp: Pixel_eq_iff)
  qed
  have "BFS_inv img start out ?s"
    unfolding BFS_inv_def
  proof (intro conjI)
    show "length (used ?s) = GetRows img" by (simp add: cell_set_length)
    show "\<forall>row\<in>set (used ?s). length row = first_row_size img"
      using cell_set_rows [of ?u0 "first_row_size img"] by simp
    show "\<forall>p. IsCorrect img (x p) (y p) \<longrightarrow>
      used ?s ! nat (x p) ! nat (y p) = (p \<in> set (pushed ?s))" by (rule marks)
    show "\<forall>p\<in>set (pushed ?s). IsCorrect img (x p) (y p)" using c by simp
  qed simp_all
  moreover have "BFS_closed img start ?s" by (simp add: BFS_closed_def)
  ultimately show ?thesis using init by blast
qed

lemma BFS_total:
  assumes r: "rect img" and c: "IsCorrect img (x start) (y start)"
  shows "\<exists>t. BFS start img out = Some (Inr t) \<and> BFS_inv img start out t \<and>
           BFS_closed img start t \<and> queue t = []"
proof -
  from BFS_init_inv [OF c] obtain s where
    i: "BFS_init start img out = Inr s" and inv: "BFS_inv img start out s" and
    cl: "BFS_closed img start s" by blast
  from BFS_loop_terminates [OF r inv cl] i show ?thesis by (simp add: BFS_def)
qed









lemma BFS_visit_counters:
  "BFS_visit ns s = Inr s' \<Longrightarrow> white s' = white s \<and> black s' = black s"
  by (induction ns arbitrary: s) (auto split: sum.splits if_splits)

lemma BFS_body_counters:
  "BFS_body img s = Inr s' \<Longrightarrow> white s' = white s \<and> black s' = black s"
  by (auto simp: BFS_body_def split: list.splits sum.splits dest!: BFS_visit_counters)

lemma BFS_iter_counters:
  "BFS_iter n img s = Inr s' \<Longrightarrow> white s' = white s \<and> black s' = black s"
  by (induction n arbitrary: s) (auto split: if_splits sum.splits dest!: BFS_body_counters)

lemma BFS_loop_exit_aux:
  assumes "BFS_loop img s = Some r"
  shows "\<forall>t. r = Inr t \<longrightarrow> \<not> BFS_cond t \<and> white t = white s \<and> black t = black s"
proof (rule BFS_loop.raw_induct
    [where P = "\<lambda>img s r. \<forall>t. r = Inr t \<longrightarrow> \<not> BFS_cond t \<and> white t = white s \<and> black t = black s",
      OF _ assms], goal_cases)
  case (1 loop img s r)
  show ?case
  proof (cases "BFS_cond s")
    case False
    with 1(2) show ?thesis by auto
  next
    case True
    show ?thesis
    proof (intro allI impI)
      fix t assume rt: "r = Inr t"
      from True 1(2) rt obtain s' where b: "BFS_body img s = Inr s'"
        and l: "loop img s' = Some r"
        by (auto split: sum.splits)
      from 1(1) [OF l] rt BFS_body_counters [OF b]
      show "\<not> BFS_cond t \<and> white t = white s \<and> black t = black s" by simp
    qed
  qed
qed

lemma BFS_loop_exit:
  "BFS_loop img s = Some (Inr t) \<Longrightarrow> \<not> BFS_cond t \<and> white t = white s \<and> black t = black s"
  using BFS_loop_exit_aux [of img s "Inr t"] by simp

lemma BFS_loop_iter_aux:
  assumes "BFS_loop img s = Some r"
  shows "\<exists>n. BFS_iter n img s = r"
proof (rule BFS_loop.raw_induct [where P = "\<lambda>img s r. \<exists>n. BFS_iter n img s = r", OF _ assms],
    goal_cases)
  case (1 loop img s r)
  show ?case
  proof (cases "BFS_cond s")
    case False
    with 1(2) have "BFS_iter 0 img s = r" by simp
    then show ?thesis ..
  next
    case True
    show ?thesis
    proof (cases "BFS_body img s")
      case (Inl e)
      with True 1(2) have r: "r = Inl e" by simp
      have "BFS_iter (Suc 0) img s = r" unfolding r using True Inl by simp
      then show ?thesis ..
    next
      case (Inr s')
      with True 1(2) have "loop img s' = Some r" by simp
      from 1(1) [OF this] obtain n where "BFS_iter n img s' = r" ..
      with True Inr have "BFS_iter (Suc n) img s = r" by simp
      then show ?thesis ..
    qed
  qed
qed

lemma BFS_init_counters:
  "BFS_init start img out = Inr s \<Longrightarrow> white s = 0 \<and> black s = 1"
  by (auto simp: BFS_init_def Let_def split: sum.splits if_splits)

lemma BFS_cond_counters:
  "white s = 0 \<Longrightarrow> black s = 1 \<Longrightarrow> BFS_cond s = (queue s \<noteq> [])"
  by (simp add: BFS_cond_def MIN_ITERATION_COUNT_def MAX_ITERATION_COUNT_def)

lemma GetRows_Image_ctor: "GetRows (Image_ctor m) = mat_rows m"
  by (simp add: GetRows_def Image_ctor_def)

lemma IsCorrect_Image_ctor:
  "IsCorrect (Image_ctor m) r c =
     (0 \<le> r \<and> r < int (mat_rows m) \<and> 0 \<le> c \<and> c < int (mat_cols m))"
  by (cases "mat_rows m = 0") (auto simp: IsCorrect_def Image_ctor_def)

lemma first_row_size_Image_ctor:
  "0 < mat_rows m \<Longrightarrow> first_row_size (Image_ctor m) = mat_cols m"
  by (simp add: first_row_size_def Image_ctor_def)

lemma size_Image_ctor:
  "GetRows (Image_ctor m) * first_row_size (Image_ctor m) = mat_rows m * mat_cols m"
  by (cases "mat_rows m = 0") (simp_all add: GetRows_Image_ctor first_row_size_Image_ctor)





text \<open>
  Claim C3. The loop body never changes the two counters: in every state that the loop
  reaches from the initial one, \<open>white\<close> is 0 and \<open>black\<close> is 1, the two tests of the
  loop condition that read the counters hold, and the loop condition is the test that
  the queue is not empty. The state in which the flood fill returns is one of these
  states, and its queue is empty.
\<close>

theorem BFS_counters_inert:
  "(BFS_init start img out = Inr s0 \<and> BFS_iter n img s0 = Inr s \<longrightarrow>
      white s = 0 \<and> black s = 1 \<and>
      (white s div black s = 0 \<or> white s + black s < MIN_ITERATION_COUNT) \<and>
      black s + white s < MAX_ITERATION_COUNT \<and>
      BFS_cond s = (queue s \<noteq> [])) \<and>
   (BFS_body img s1 = Inr s2 \<longrightarrow> white s2 = white s1 \<and> black s2 = black s1) \<and>
   (BFS start img out = Some (Inr t) \<longrightarrow>
      queue t = [] \<and> white t = 0 \<and> black t = 1 \<and>
      (\<exists>s0 n. BFS_init start img out = Inr s0 \<and> BFS_iter n img s0 = Inr t))"
proof (intro conjI impI)
  assume a: "BFS_init start img out = Inr s0 \<and> BFS_iter n img s0 = Inr s"
  with BFS_init_counters [of start img out s0] BFS_iter_counters [of n img s0 s]
  have c: "white s = 0" "black s = 1" by auto
  then show "white s = 0" "black s = 1" by auto
  from c show "white s div black s = 0 \<or> white s + black s < MIN_ITERATION_COUNT"
    by simp
  from c show "black s + white s < MAX_ITERATION_COUNT"
    by (simp add: MAX_ITERATION_COUNT_def)
  from c show "BFS_cond s = (queue s \<noteq> [])" by (rule BFS_cond_counters)
next
  assume "BFS_body img s1 = Inr s2"
  from BFS_body_counters [OF this] show "white s2 = white s1" "black s2 = black s1" by auto
next
  assume a: "BFS start img out = Some (Inr t)"
  then obtain s1 where i: "BFS_init start img out = Inr s1" and l: "BFS_loop img s1 = Some (Inr t)"
    by (auto simp: BFS_def split: sum.splits)
  from BFS_loop_exit [OF l] BFS_init_counters [OF i]
  have c: "\<not> BFS_cond t" "white t = 0" "black t = 1" by auto
  then show "white t = 0" "black t = 1" by auto
  from c BFS_cond_counters [of t] show "queue t = []" by simp
  from BFS_loop_iter_aux [OF l] i
  show "\<exists>s0 n. BFS_init start img out = Inr s0 \<and> BFS_iter n img s0 = Inr t" by blast
qed

theorem BFS_counters_inert_witness:
  "BFS_init \<lparr>x = 0, y = 0\<rparr> (Image_ctor white_1x2) [] =
     Inr \<lparr>queue = [\<lparr>x = 0, y = 0\<rparr>], used = [[True, False]], black_pixels = [],
          white = 0, black = 1, pushed = [\<lparr>x = 0, y = 0\<rparr>], popped = []\<rparr> \<and>
   BFS_iter 1 (Image_ctor white_1x2)
       \<lparr>queue = [\<lparr>x = 0, y = 0\<rparr>], used = [[True, False]], black_pixels = [],
        white = 0, black = 1, pushed = [\<lparr>x = 0, y = 0\<rparr>], popped = []\<rparr> =
     Inr \<lparr>queue = [\<lparr>x = 0, y = 1\<rparr>], used = [[True, True]], black_pixels = [],
          white = 0, black = 1, pushed = [\<lparr>x = 0, y = 0\<rparr>, \<lparr>x = 0, y = 1\<rparr>],
          popped = [\<lparr>x = 0, y = 0\<rparr>]\<rparr> \<and>
   BFS_cond \<lparr>queue = [\<lparr>x = 0, y = 1\<rparr>], used = [[True, True]], black_pixels = [],
          white = 0, black = 1, pushed = [\<lparr>x = 0, y = 0\<rparr>, \<lparr>x = 0, y = 1\<rparr>],
          popped = [\<lparr>x = 0, y = 0\<rparr>]\<rparr> \<and>
   BFS \<lparr>x = 0, y = 0\<rparr> (Image_ctor white_1x2) [] =
     Some (Inr \<lparr>queue = [], used = [[True, True]], black_pixels = [],
          white = 0, black = 1, pushed = [\<lparr>x = 0, y = 0\<rparr>, \<lparr>x = 0, y = 1\<rparr>],
          popped = [\<lparr>x = 0, y = 0\<rparr>, \<lparr>x = 0, y = 1\<rparr>]\<rparr>)"
proof -
  let ?I = "Image_ctor white_1x2"
  let ?S0 = "\<lparr>queue = [\<lparr>x = 0, y = 0\<rparr>], used = [[True, False]], black_pixels = [],
        white = 0, black = 1, pushed = [\<lparr>x = 0, y = 0\<rparr>], popped = []\<rparr>"
  let ?S1 = "\<lparr>queue = [\<lparr>x = 0, y = 1\<rparr>], used = [[True, True]], black_pixels = [],
          white = 0, black = 1, pushed = [\<lparr>x = 0, y = 0\<rparr>, \<lparr>x = 0, y = 1\<rparr>],
          popped = [\<lparr>x = 0, y = 0\<rparr>]\<rparr>"
  let ?T = "\<lparr>queue = [], used = [[True, True]], black_pixels = [],
          white = 0, black = 1, pushed = [\<lparr>x = 0, y = 0\<rparr>, \<lparr>x = 0, y = 1\<rparr>],
          popped = [\<lparr>x = 0, y = 0\<rparr>, \<lparr>x = 0, y = 1\<rparr>]\<rparr>"
  have a: "BFS_init \<lparr>x = 0, y = 0\<rparr> ?I [] = Inr ?S0" by code_simp
  have b: "BFS_iter 1 ?I ?S0 = Inr ?S1" by code_simp
  have c: "BFS \<lparr>x = 0, y = 0\<rparr> ?I [] = Some (Inr ?T)" by code_simp
  from BFS_counters_inert [of "\<lparr>x = 0, y = 0\<rparr>" ?I "[]" ?S0 1 ?S1] a b
  have "BFS_cond ?S1 = (queue ?S1 \<noteq> [])" by blast
  then have "BFS_cond ?S1" by simp
  with a b c show ?thesis by blast
qed

text \<open>
  Claim C8. For every image and every seed inside it, the flood fill returns with an
  empty queue; no pixel occurs twice in the sequence of its pushes; a cell of \<open>used\<close> is
  set exactly for the pushed pixels; every pushed pixel is popped once; and the number of
  pops is at most rows times columns.
\<close>

theorem BFS_each_pixel_once:
  "0 \<le> x start \<and> x start < int (mat_rows m) \<and> 0 \<le> y start \<and> y start < int (mat_cols m) \<longrightarrow>
     (\<exists>s. BFS start (Image_ctor m) out = Some (Inr s) \<and>
          queue s = [] \<and>
          distinct (pushed s) \<and>
          popped s = pushed s \<and>
          length (popped s) \<le> mat_rows m * mat_cols m \<and>
          (\<forall>p. IsCorrect (Image_ctor m) (x p) (y p) \<longrightarrow>
               used s ! nat (x p) ! nat (y p) = (p \<in> set (pushed s))))"
proof
  assume "0 \<le> x start \<and> x start < int (mat_rows m) \<and> 0 \<le> y start \<and> y start < int (mat_cols m)"
  then have c: "IsCorrect (Image_ctor m) (x start) (y start)"
    by (simp add: IsCorrect_Image_ctor)
  from BFS_total [OF rect_Image_ctor c, of out] obtain t where
    t: "BFS start (Image_ctor m) out = Some (Inr t)" and
    inv: "BFS_inv (Image_ctor m) start out t" and q: "queue t = []" by blast
  from inv q have f: "distinct (pushed t)" "popped t = pushed t"
      "\<forall>p\<in>set (pushed t). IsCorrect (Image_ctor m) (x p) (y p)"
      "\<forall>p. IsCorrect (Image_ctor m) (x p) (y p) \<longrightarrow>
           used t ! nat (x p) ! nat (y p) = (p \<in> set (pushed t))"
    unfolding BFS_inv_def by auto
  from IsCorrect_count [OF f(1) f(3)] f(2)
  have "length (popped t) \<le> mat_rows m * mat_cols m" by (simp add: size_Image_ctor)
  with t q f show "\<exists>s. BFS start (Image_ctor m) out = Some (Inr s) \<and>
          queue s = [] \<and>
          distinct (pushed s) \<and>
          popped s = pushed s \<and>
          length (popped s) \<le> mat_rows m * mat_cols m \<and>
          (\<forall>p. IsCorrect (Image_ctor m) (x p) (y p) \<longrightarrow>
               used s ! nat (x p) ! nat (y p) = (p \<in> set (pushed s)))"
    by blast
qed

theorem BFS_each_pixel_once_witness:
  "(0 \<le> x \<lparr>x = 1, y = 0\<rparr> \<and> x \<lparr>x = 1, y = 0\<rparr> < int (mat_rows corner_2x2) \<and>
    0 \<le> y \<lparr>x = 1, y = 0\<rparr> \<and> y \<lparr>x = 1, y = 0\<rparr> < int (mat_cols corner_2x2)) \<and>
   (\<exists>s. BFS \<lparr>x = 1, y = 0\<rparr> (Image_ctor corner_2x2) [] = Some (Inr s) \<and>
        queue s = [] \<and> distinct (pushed s) \<and> popped s = pushed s \<and>
        length (popped s) \<le> mat_rows corner_2x2 * mat_cols corner_2x2)"
proof -
  have h: "0 \<le> x \<lparr>x = 1, y = 0\<rparr> \<and> x \<lparr>x = 1, y = 0\<rparr> < int (mat_rows corner_2x2) \<and>
    0 \<le> y \<lparr>x = 1, y = 0\<rparr> \<and> y \<lparr>x = 1, y = 0\<rparr> < int (mat_cols corner_2x2)"
    by (simp add: corner_2x2_def)
  from BFS_each_pixel_once [of "\<lparr>x = 1, y = 0\<rparr>" corner_2x2 "[]"] h
  show ?thesis by blast
qed

section \<open>The scanner and the program\<close>


text \<open>
  Claim C5 fails on the code. After a positive test at \<open>(i, j)\<close> the row cursor is
  advanced by 20 inside the loop over \<open>j\<close>, and the next \<open>IsWhite(i, j)\<close> of that loop
  uses it without a test against the number of rows. On the image \<open>skip_image\<close> of 6
  rows and 7 columns the sample (0, 0) is white and is classified as an intersection, so
  the next access is \<open>IsWhite(20, 5)\<close>, outside the grid.
\<close>

theorem scan_skip_out_of_bounds:
  "GetRows (Image_ctor skip_image) = 6 \<and>
   IsWhite (Image_ctor skip_image) 0 0 = Inr True \<and>
   IsIntersection \<lparr>x = 0, y = 0\<rparr> (Image_ctor skip_image) = Some (Inr True) \<and>
   IsWhite (Image_ctor skip_image) 20 5 = Inl (OutOfBounds 20 5) \<and>
   scan (Image_ctor skip_image) 0 [] = Some (Inl (OutOfBounds 20 5)) \<and>
   main 2 skip_image = Some (Inl (OutOfBounds 20 5))"
  by code_simp

text \<open>
  Claim C9. When the decoded matrix has no rows and an argument was given, the test of
  the loop over \<open>i\<close> fails at once, the scan returns no candidate, and \<open>main\<close> writes the
  digit 0 and a newline and returns the exit code 0.
\<close>

theorem main_zero_rows:
  "2 \<le> argc \<and> mat_rows decoded = 0 \<longrightarrow>
     \<not> int_less_size 0 (GetRows (Image_ctor decoded)) \<and>
     scan (Image_ctor decoded) 0 [] = Some (Inr []) \<and>
     main argc decoded = Some (Inr (''0'' @ newline, 0))"
  by (simp add: main_def scan.simps int_less_size_def GetRows_def Image_ctor_def dedup_def
      show_int_def digit_char_def)

theorem main_zero_rows_witness:
  "(2::int) \<le> 2 \<and> mat_rows empty_mat = 0 \<and>
   \<not> int_less_size 0 (GetRows (Image_ctor empty_mat)) \<and>
   scan (Image_ctor empty_mat) 0 [] = Some (Inr []) \<and>
   main 2 empty_mat = Some (Inr ([CHR ''0'', CHR 0x0A], 0))"
proof -
  have h: "(2::int) \<le> 2 \<and> mat_rows empty_mat = 0" by (simp add: empty_mat_def)
  from main_zero_rows [of 2 empty_mat] h show ?thesis by (simp add: newline_def)
qed

end
